theory Spec2Isabelle
  imports Main "HOL-Library.Word"
begin

section \<open>C arithmetic\<close>

text \<open>
  On the 32-bit ARM target the hooks are built for (\<^verbatim>\<open>arm-linux-gnueabihf-gcc\<close>), \<^verbatim>\<open>int\<close>,
  \<^verbatim>\<open>long\<close> and \<^verbatim>\<open>time_t\<close> have 32 bits. Their values are integers here, and every sum,
  difference and product that can leave the 32-bit range is reduced to it in two's
  complement, as the machine instructions do (C itself leaves signed overflow undefined).
  C's \<^verbatim>\<open>/\<close> truncates towards zero, HOL's \<open>div\<close> rounds down.
\<close>

definition wrap32 :: "int \<Rightarrow> int" where
  "wrap32 k = (k + 2147483648) mod 4294967296 - 2147483648"

definition c_div :: "int \<Rightarrow> int \<Rightarrow> int" where
  "c_div a b = sgn a * sgn b * (\<bar>a\<bar> div \<bar>b\<bar>)"

section \<open>Coordinate transformation constants (test-output/analysis\_coords.h)\<close>

definition DISPLAY_WIDTH :: int where "DISPLAY_WIDTH = 1404"
definition DISPLAY_HEIGHT :: int where "DISPLAY_HEIGHT = 1872"

definition WACOM_X_MIN :: int where "WACOM_X_MIN = 211"
definition WACOM_X_MAX :: int where "WACOM_X_MAX = 20820"
definition WACOM_Y_MIN :: int where "WACOM_Y_MIN = 90"
definition WACOM_Y_MAX :: int where "WACOM_Y_MAX = 15712"

definition WACOM_X_RANGE :: int where "WACOM_X_RANGE = WACOM_X_MAX - WACOM_X_MIN"
definition WACOM_Y_RANGE :: int where "WACOM_Y_RANGE = WACOM_Y_MAX - WACOM_Y_MIN"

text \<open>
  \<^verbatim>\<open>display_to_wacom_x(int display_y)\<close>: the raw X axis is fed by display Y and inverted.
\<close>

definition display_to_wacom_x :: "int \<Rightarrow> int" where
  "display_to_wacom_x display_y =
     WACOM_X_MAX - c_div (wrap32 (display_y * WACOM_X_RANGE)) DISPLAY_HEIGHT"

text \<open>\<^verbatim>\<open>display_to_wacom_y(int display_x)\<close>: the raw Y axis is fed by display X.\<close>

definition display_to_wacom_y :: "int \<Rightarrow> int" where
  "display_to_wacom_y display_x =
     WACOM_Y_MIN + c_div (wrap32 (display_x * WACOM_Y_RANGE)) DISPLAY_WIDTH"

definition clamp_wacom_x :: "int \<Rightarrow> int" where
  "clamp_wacom_x x =
     (if x < WACOM_X_MIN then WACOM_X_MIN
      else if x > WACOM_X_MAX then WACOM_X_MAX
      else x)"

definition clamp_wacom_y :: "int \<Rightarrow> int" where
  "clamp_wacom_y y =
     (if y < WACOM_Y_MIN then WACOM_Y_MIN
      else if y > WACOM_Y_MAX then WACOM_Y_MAX
      else y)"

text \<open>
  The mapper of the specification, \<open>map(displayX, displayY) = (rawX, rawY)\<close>, is the pair
  of the two header functions, as test-output/pen\_shapes\_constants.h calls them with both
  display coordinates.
\<close>

definition map_display :: "int \<Rightarrow> int \<Rightarrow> int \<times> int" where
  "map_display display_x display_y =
     (display_to_wacom_x display_y, display_to_wacom_y display_x)"

section \<open>Input events (linux/input.h)\<close>

text \<open>
  Modelled from the spec: \<^verbatim>\<open>struct input_event\<close> and the event codes of linux/input.h,
  which is not part of the repository. The spec's RawEvent has a kind, a code and a
  value; the C record adds a time stamp in front. The kind and the code are 16-bit
  unsigned, the value is 32-bit signed; the numeric codes are those of
  linux/input-event-codes.h.
\<close>

record input_event =
  ev_sec :: int
  ev_usec :: int
  ev_type :: nat
  ev_code :: nat
  ev_value :: int

definition EV_SYN :: nat where "EV_SYN = 0"
definition EV_KEY :: nat where "EV_KEY = 1"
definition EV_ABS :: nat where "EV_ABS = 3"
definition SYN_REPORT :: nat where "SYN_REPORT = 0"
definition BTN_TOOL_PEN :: nat where "BTN_TOOL_PEN = 320"
definition BTN_TOUCH :: nat where "BTN_TOUCH = 330"
definition ABS_X :: nat where "ABS_X = 0"
definition ABS_Y :: nat where "ABS_Y = 1"
definition ABS_PRESSURE :: nat where "ABS_PRESSURE = 24"

text \<open>
  Modelled from the spec: one record's size, \<^verbatim>\<open>sizeof(struct input_event)\<close>, which comes
  from the same header. On the 32-bit ARM target the hooks are built for
  (\<^verbatim>\<open>arm-linux-gnueabihf-gcc\<close>) the record has two 32-bit time fields, two 16-bit fields and
  one 32-bit field. \<^verbatim>\<open>size_t\<close> has 32 bits there, so a requested byte count is a \<open>32 word\<close>.
\<close>

definition sizeof_input_event :: nat where "sizeof_input_event = 16"

text \<open>\<^verbatim>\<open>make_event\<close>: \<^verbatim>\<open>memset\<close> clears the time stamp, then the three fields are set.\<close>

definition make_event :: "nat \<Rightarrow> nat \<Rightarrow> int \<Rightarrow> input_event" where
  "make_event t c v = \<lparr>ev_sec = 0, ev_usec = 0, ev_type = t, ev_code = c, ev_value = v\<rparr>"

section \<open>The hook's state and its observable effects\<close>

text \<open>
  What the hook does besides changing its globals is recorded in a trace: the lines it
  prints on stderr, the pauses of \<^verbatim>\<open>usleep\<close>, the creation of the reader thread and every
  call of the real \<^verbatim>\<open>read\<close> found by \<^verbatim>\<open>dlsym\<close>.
\<close>

datatype effect =
    Queue_Full_Warning
  | Bounds_Warning int int
  | Usleep int
  | Wacom_Detected int
  | Thread_Create
  | Original_Read int "32 word"
  | Cursor_Report int int

text \<open>
  The globals of Rm2/src/inject.c: the ring \<^verbatim>\<open>queue[MAX_QUEUE]\<close> with its two indices and
  \<^verbatim>\<open>wacom_fd\<close>. The indices are C \<^verbatim>\<open>int\<close>s that only ever hold values of
  \<open>0..<MAX_QUEUE\<close>, so they are natural numbers here.
\<close>

definition MAX_QUEUE :: nat where "MAX_QUEUE = 10000"

record hook =
  queue :: "nat \<Rightarrow> input_event"
  q_head :: nat
  q_tail :: nat
  wacom_fd :: int
  trace :: "effect list"

text \<open>The state at load time: static storage is zeroed, \<^verbatim>\<open>wacom_fd = -1\<close>.\<close>

definition hook_init :: hook where
  "hook_init = \<lparr>queue = (\<lambda>_. make_event 0 0 0), q_head = 0, q_tail = 0,
     wacom_fd = - 1, trace = []\<rparr>"

section \<open>Event queue (Rm2/src/inject.c)\<close>

definition enqueue :: "input_event \<Rightarrow> 'a hook_scheme \<Rightarrow> 'a hook_scheme" where
  "enqueue ev s =
     (if (q_tail s + 1) mod MAX_QUEUE \<noteq> q_head s
      then s\<lparr>queue := (queue s)(q_tail s := ev), q_tail := (q_tail s + 1) mod MAX_QUEUE\<rparr>
      else s\<lparr>trace := trace s @ [Queue_Full_Warning]\<rparr>)"

text \<open>
  \<^verbatim>\<open>dequeue\<close> returns 0 on an empty queue and otherwise stores the oldest event through
  its pointer argument and returns 1; the model returns the event, if any.
\<close>

definition dequeue :: "'a hook_scheme \<Rightarrow> input_event option \<times> 'a hook_scheme" where
  "dequeue s =
     (if q_head s = q_tail s then (None, s)
      else (Some (queue s (q_head s)), s\<lparr>q_head := (q_head s + 1) mod MAX_QUEUE\<rparr>))"

definition has_events :: "'a hook_scheme \<Rightarrow> bool" where
  "has_events s = (q_head s \<noteq> q_tail s)"

text \<open>
  The abstraction used to state the queue's properties: the indices are in range, and the
  stored events are the slots from \<open>q_head\<close> up to, not including, \<open>q_tail\<close>.
\<close>

definition q_wf :: "'a hook_scheme \<Rightarrow> bool" where
  "q_wf s = (q_head s < MAX_QUEUE \<and> q_tail s < MAX_QUEUE)"

definition q_len :: "'a hook_scheme \<Rightarrow> nat" where
  "q_len s = (q_tail s + MAX_QUEUE - q_head s) mod MAX_QUEUE"

definition q_contents :: "'a hook_scheme \<Rightarrow> input_event list" where
  "q_contents s = map (\<lambda>i. queue s ((q_head s + i) mod MAX_QUEUE)) [0..<q_len s]"

text \<open>
  Producer and consumer take the lock for one operation at a time, so a run of the two
  threads is a sequence of whole \<^verbatim>\<open>enqueue\<close> and \<^verbatim>\<open>dequeue\<close> calls in some interleaving.
\<close>

datatype q_op = Enq input_event | Deq

fun run_ops :: "q_op list \<Rightarrow> 'a hook_scheme \<Rightarrow> input_event option list \<times> 'a hook_scheme" where
  "run_ops [] s = ([], s)"
| "run_ops (Enq ev # ops) s = run_ops ops (enqueue ev s)"
| "run_ops (Deq # ops) s =
     (case dequeue s of (r, s') \<Rightarrow>
        (case run_ops ops s' of (rs, s'') \<Rightarrow> (r # rs, s'')))"

fun enqueued :: "q_op list \<Rightarrow> input_event list" where
  "enqueued [] = []"
| "enqueued (Enq ev # ops) = ev # enqueued ops"
| "enqueued (Deq # ops) = enqueued ops"

fun dequeued :: "input_event option list \<Rightarrow> input_event list" where
  "dequeued [] = []"
| "dequeued (None # rs) = dequeued rs"
| "dequeued (Some ev # rs) = ev # dequeued rs"

section \<open>Device detection (Rm2/src/inject.c)\<close>

text \<open>
  What \<^verbatim>\<open>is_wacom\<close> asks the system: \<^verbatim>\<open>readlink\<close> of \<^verbatim>\<open>/proc/self/fd/<fd>\<close> and the
  \<^verbatim>\<open>EVIOCGNAME\<close> ioctl. Each answers with a string or fails (\<open>None\<close>). Paths and device
  names contain no NUL byte, and device names are shorter than the 256-byte buffer.
\<close>

record os_view =
  readlink_fd :: "int \<Rightarrow> string option"
  evioc_name :: "int \<Rightarrow> string option"

text \<open>\<^verbatim>\<open>strstr(haystack, needle) != NULL\<close>.\<close>

fun strstr :: "string \<Rightarrow> string \<Rightarrow> bool" where
  "strstr [] needle = (needle = [])"
| "strstr (c # cs) needle = (take (length needle) (c # cs) = needle \<or> strstr cs needle)"

text \<open>
  \<^verbatim>\<open>readlink\<close> stores at most 255 bytes; \<^verbatim>\<open>strncmp(link, "/dev/input/event", 16) != 0\<close>
  rejects every link whose first 16 bytes are not the prefix.
\<close>

definition is_wacom :: "os_view \<Rightarrow> int \<Rightarrow> bool" where
  "is_wacom os fd =
     (case readlink_fd os fd of
        None \<Rightarrow> False
      | Some target \<Rightarrow>
          if take 16 (take 255 target) \<noteq> ''/dev/input/event'' then False
          else (case evioc_name os fd of
                  None \<Rightarrow> False
                | Some name \<Rightarrow> strstr name ''Wacom''))"

section \<open>The read hook (Rm2/src/inject.c)\<close>

text \<open>
  The real \<^verbatim>\<open>read\<close>: for a descriptor and a byte count, its return value and the buffer
  it leaves behind, seen as an array of event records.
\<close>

type_synonym real_read = "int \<Rightarrow> 32 word \<Rightarrow> int \<times> input_event list"

text \<open>
  The loop \<^verbatim>\<open>while (injected < max_events && dequeue(&events[injected])) injected++\<close>,
  by recursion on the number of free slots; the events are returned in buffer order.
\<close>

fun drain :: "nat \<Rightarrow> 'a hook_scheme \<Rightarrow> input_event list \<times> 'a hook_scheme" where
  "drain 0 s = ([], s)"
| "drain (Suc k) s =
     (case dequeue s of
        (None, s') \<Rightarrow> ([], s')
      | (Some ev, s') \<Rightarrow> (case drain k s' of (evs, s'') \<Rightarrow> (ev # evs, s'')))"

text \<open>The first part of \<^verbatim>\<open>read\<close>: adopt the descriptor and start the reader thread.\<close>

definition detect :: "os_view \<Rightarrow> int \<Rightarrow> 'a hook_scheme \<Rightarrow> 'a hook_scheme" where
  "detect os fd s =
     (if wacom_fd s = - 1 \<and> is_wacom os fd
      then s\<lparr>wacom_fd := fd, trace := trace s @ [Wacom_Detected fd, Thread_Create]\<rparr>
      else s)"

definition call_original ::
  "real_read \<Rightarrow> int \<Rightarrow> 32 word \<Rightarrow> 'a hook_scheme \<Rightarrow> (int \<times> input_event list) \<times> 'a hook_scheme" where
  "call_original original_read fd count s =
     (original_read fd count, s\<lparr>trace := trace s @ [Original_Read fd count]\<rparr>)"

text \<open>
  \<^verbatim>\<open>read(fd, buf, count)\<close>. The result is the return value with the records in the
  buffer, and the new state.
\<close>

definition read ::
  "os_view \<Rightarrow> real_read \<Rightarrow> int \<Rightarrow> 32 word \<Rightarrow> 'a hook_scheme \<Rightarrow>
     (int \<times> input_event list) \<times> 'a hook_scheme" where
  "read os original_read fd count s =
     (let s1 = detect os fd s in
      if fd = wacom_fd s1 \<and> has_events s1 then
        (let max_events = unat count div sizeof_input_event in
         case drain max_events s1 of (events, s2) \<Rightarrow>
           (let injected = length events in
            if injected > 0 then ((int (injected * sizeof_input_event), events), s2)
            else call_original original_read fd count s2))
      else call_original original_read fd count s1)"

section \<open>Command parsing\<close>

text \<open>
  \<^verbatim>\<open>isspace\<close> and \<^verbatim>\<open>isdigit\<close> in the C locale: space and the bytes 9 to 13; the bytes
  \<^verbatim>\<open>'0'\<close> to \<^verbatim>\<open>'9'\<close>.
\<close>

definition isspace :: "char \<Rightarrow> bool" where
  "isspace c = (c = CHR '' '' \<or> (9 \<le> (of_char c :: nat) \<and> (of_char c :: nat) \<le> 13))"

definition isdigit :: "char \<Rightarrow> bool" where
  "isdigit c = (48 \<le> (of_char c :: nat) \<and> (of_char c :: nat) \<le> 57)"

definition digits_value :: "string \<Rightarrow> int" where
  "digits_value ds = foldl (\<lambda>acc c. 10 * acc + (int (of_char c) - 48)) 0 ds"

text \<open>
  What takes the reader outside what C defines, beyond a skipped line: \<^verbatim>\<open>%s\<close> has no
  field width, so a first word of 32 bytes or more is written past the end of
  \<^verbatim>\<open>char cmd[32]\<close>; and \<^verbatim>\<open>%d\<close> on a number that does not fit an \<^verbatim>\<open>int\<close> stores a value
  the C standard leaves open. The model stops at either with a fault instead of choosing
  an outcome.
\<close>

datatype fault = Cmd_Overrun | Int_Range

text \<open>
  One \<^verbatim>\<open>%d\<close> conversion: skip white space, read an optional sign and at least one
  digit. \<open>Inr None\<close> is a matching or input failure; \<open>Inr (Some (v, rest))\<close> is the
  32-bit value read and the unread rest.
\<close>

definition scan_int :: "string \<Rightarrow> fault + (int \<times> string) option" where
  "scan_int inp =
     (let r = dropWhile isspace inp;
          neg = (r \<noteq> [] \<and> hd r = CHR ''-'');
          r1 = (if r \<noteq> [] \<and> (hd r = CHR ''-'' \<or> hd r = CHR ''+'') then tl r else r);
          ds = takeWhile isdigit r1;
          v = (if neg then - digits_value ds else digits_value ds)
      in if ds = [] then Inr None
         else if v < - 2147483648 \<or> 2147483647 < v then Inl Int_Range
         else Inr (Some (v, dropWhile isdigit r1)))"

text \<open>
  \<^verbatim>\<open>sscanf(line, "%s %d %d", cmd, &x, &y)\<close> on a NUL-free string, with the values \<open>x0\<close>
  and \<open>y0\<close> that \<^verbatim>\<open>x\<close> and \<^verbatim>\<open>y\<close> hold before the call. The result is the return value (-1
  for \<^verbatim>\<open>EOF\<close>: nothing but white space), the word stored in \<^verbatim>\<open>cmd\<close>, and \<^verbatim>\<open>x\<close> and \<^verbatim>\<open>y\<close>
  after the call.
\<close>

definition sscanf_s_d_d :: "string \<Rightarrow> int \<Rightarrow> int \<Rightarrow> fault + (int \<times> string \<times> int \<times> int)" where
  "sscanf_s_d_d line x0 y0 =
     (let r = dropWhile isspace line in
      if r = [] then Inr (- 1, [], x0, y0)
      else
        (let cmd = takeWhile (\<lambda>c. \<not> isspace c) r;
             r1 = dropWhile (\<lambda>c. \<not> isspace c) r
         in if length cmd \<ge> 32 then Inl Cmd_Overrun
            else (case scan_int r1 of
                    Inl f \<Rightarrow> Inl f
                  | Inr None \<Rightarrow> Inr (1, cmd, x0, y0)
                  | Inr (Some (x, r2)) \<Rightarrow>
                      (case scan_int r2 of
                         Inl f \<Rightarrow> Inl f
                       | Inr None \<Rightarrow> Inr (2, cmd, x, y0)
                       | Inr (Some (y, r3)) \<Rightarrow> Inr (3, cmd, x, y)))))"




text \<open>The bytes of a buffer up to its first NUL: what \<^verbatim>\<open>%s\<close> and \<^verbatim>\<open>sscanf\<close> see of it.\<close>

definition c_str :: "string \<Rightarrow> string" where
  "c_str bytes = takeWhile (\<lambda>c. c \<noteq> CHR 0x00) bytes"

section \<open>FIFO command reader (Rm2/src/inject.c)\<close>

definition WACOM_MAX_X :: int where "WACOM_MAX_X = 20966"
definition WACOM_MAX_Y :: int where "WACOM_MAX_Y = 15725"

definition to_wacom_x :: "int \<Rightarrow> int \<Rightarrow> int" where
  "to_wacom_x pen_x pen_y = WACOM_MAX_X - c_div (wrap32 (pen_y * WACOM_MAX_X)) DISPLAY_HEIGHT"

definition to_wacom_y :: "int \<Rightarrow> int \<Rightarrow> int" where
  "to_wacom_y pen_x pen_y = c_div (wrap32 (pen_x * WACOM_MAX_Y)) DISPLAY_WIDTH"

text \<open>The events of the three pen commands, in the order of the \<^verbatim>\<open>enqueue\<close> calls.\<close>

definition pen_down_events :: "int \<Rightarrow> int \<Rightarrow> input_event list" where
  "pen_down_events wx wy =
     [make_event EV_KEY BTN_TOOL_PEN 1, make_event EV_KEY BTN_TOUCH 1,
      make_event EV_ABS ABS_X wx, make_event EV_ABS ABS_Y wy,
      make_event EV_ABS ABS_PRESSURE 2000, make_event EV_SYN SYN_REPORT 0]"

definition pen_move_events :: "int \<Rightarrow> int \<Rightarrow> input_event list" where
  "pen_move_events wx wy =
     [make_event EV_ABS ABS_X wx, make_event EV_ABS ABS_Y wy,
      make_event EV_ABS ABS_PRESSURE 2000, make_event EV_SYN SYN_REPORT 0]"

definition pen_up_events :: "input_event list" where
  "pen_up_events =
     [make_event EV_KEY BTN_TOUCH 0, make_event EV_KEY BTN_TOOL_PEN 0,
      make_event EV_SYN SYN_REPORT 0]"






text \<open>What follows the last newline of a byte sequence.\<close>

definition last_fragment :: "string \<Rightarrow> string" where
  "last_fragment bytes = rev (takeWhile (\<lambda>c. c \<noteq> CHR 0x0A) (rev bytes))"

section \<open>The hook with suppression (resources/old/rm2-inject-v4/src/inject\_hook.c)\<close>

text \<open>
  This variant has the same ring and descriptor globals under the names
  \<^verbatim>\<open>event_queue\<close>, \<^verbatim>\<open>queue_head\<close>, \<^verbatim>\<open>queue_tail\<close> and \<^verbatim>\<open>wacom_fd\<close> (the fields \<open>queue\<close>,
  \<open>q_head\<close>, \<open>q_tail\<close> and \<open>wacom_fd\<close> here), and adds the last pen position, the time of
  the last injection and the suppression flag.
\<close>

record timespec =
  tv_sec :: int
  tv_nsec :: int

record hook_v4 = hook +
  last_pen_x :: int
  last_pen_y :: int
  last_injection_time :: timespec
  suppress_input :: int

definition v4_init :: hook_v4 where
  "v4_init = \<lparr>queue = (\<lambda>_. make_event 0 0 0), q_head = 0, q_tail = 0,
     wacom_fd = - 1, trace = [], last_pen_x = 0, last_pen_y = 0,
     last_injection_time = \<lparr>tv_sec = 0, tv_nsec = 0\<rparr>, suppress_input = 0\<rparr>"

definition MAX_QUEUE_SIZE :: nat where "MAX_QUEUE_SIZE = 10000"
definition SUPPRESSION_MS :: int where "SUPPRESSION_MS = 150"
definition WACOM_MAX_X_v4 :: int where "WACOM_MAX_X_v4 = 15725"
definition WACOM_MAX_Y_v4 :: int where "WACOM_MAX_Y_v4 = 20967"
definition RM2_WIDTH :: int where "RM2_WIDTH = 1404"
definition RM2_HEIGHT :: int where "RM2_HEIGHT = 1872"

definition display_to_wacom_x_v4 :: "int \<Rightarrow> int" where
  "display_to_wacom_x_v4 display_x = c_div (wrap32 (display_x * WACOM_MAX_Y_v4)) RM2_WIDTH"

definition display_to_wacom_y_v4 :: "int \<Rightarrow> int" where
  "display_to_wacom_y_v4 display_y = c_div (wrap32 (display_y * WACOM_MAX_X_v4)) RM2_HEIGHT"

text \<open>
  \<^verbatim>\<open>timediff_ms\<close> computes in \<^verbatim>\<open>long\<close>: the difference of the seconds, its product with
  1000, the difference of the nanoseconds and the final sum are each 32-bit results.
\<close>

definition timediff_ms :: "timespec \<Rightarrow> timespec \<Rightarrow> int" where
  "timediff_ms start fin =
     wrap32 (wrap32 (wrap32 (tv_sec fin - tv_sec start) * 1000) +
       c_div (wrap32 (tv_nsec fin - tv_nsec start)) 1000000)"

definition is_wacom_device :: "os_view \<Rightarrow> int \<Rightarrow> bool" where
  "is_wacom_device os fd =
     (case readlink_fd os fd of
        None \<Rightarrow> False
      | Some target \<Rightarrow>
          if take 16 (take 255 target) \<noteq> ''/dev/input/event'' then False
          else (case evioc_name os fd of
                  None \<Rightarrow> False
                | Some name \<Rightarrow> strstr name ''Wacom''))"

definition queue_event :: "input_event \<Rightarrow> 'a hook_v4_scheme \<Rightarrow> 'a hook_v4_scheme" where
  "queue_event ev s =
     (if (q_tail s + 1) mod MAX_QUEUE_SIZE = q_head s
      then s\<lparr>trace := trace s @ [Queue_Full_Warning]\<rparr>
      else s\<lparr>queue := (queue s)(q_tail s := ev), q_tail := (q_tail s + 1) mod MAX_QUEUE_SIZE\<rparr>)"

definition queue_has_events :: "'a hook_v4_scheme \<Rightarrow> bool" where
  "queue_has_events s = (q_head s \<noteq> q_tail s)"

definition dequeue_event :: "'a hook_v4_scheme \<Rightarrow> input_event option \<times> 'a hook_v4_scheme" where
  "dequeue_event s =
     (if q_head s = q_tail s then (None, s)
      else (Some (queue s (q_head s)), s\<lparr>q_head := (q_head s + 1) mod MAX_QUEUE_SIZE\<rparr>))"

text \<open>\<^verbatim>\<open>track_stylus_position(events, count)\<close>, on the first \<^verbatim>\<open>count\<close> records.\<close>

fun track_stylus_position :: "input_event list \<Rightarrow> 'a hook_v4_scheme \<Rightarrow> 'a hook_v4_scheme" where
  "track_stylus_position [] s = s"
| "track_stylus_position (ev # evs) s =
     track_stylus_position evs
       (if ev_type ev = EV_ABS then
          (if ev_code ev = ABS_X then s\<lparr>last_pen_x := ev_value ev\<rparr>
           else if ev_code ev = ABS_Y then s\<lparr>last_pen_y := ev_value ev\<rparr>
           else s)
        else s)"

text \<open>
  The \<^verbatim>\<open>strcmp\<close> chain of \<^verbatim>\<open>fifo_reader_thread\<close>; \<open>now\<close> is what \<^verbatim>\<open>clock_gettime\<close> reads
  when the command is handled.
\<close>

definition command_v4 ::
  "timespec \<Rightarrow> string \<Rightarrow> int \<Rightarrow> int \<Rightarrow> 'a hook_v4_scheme \<Rightarrow> 'a hook_v4_scheme" where
  "command_v4 now cmd x y s =
     (if cmd = ''PEN_DOWN'' then
        (fold queue_event
           (pen_down_events (display_to_wacom_x_v4 x) (display_to_wacom_y_v4 y)) s)
          \<lparr>last_injection_time := now, suppress_input := 1\<rparr>
      else if cmd = ''PEN_MOVE'' then
        fold queue_event
          (pen_move_events (display_to_wacom_x_v4 x) (display_to_wacom_y_v4 y)) s
      else if cmd = ''PEN_UP'' then
        (fold queue_event pen_up_events s)\<lparr>last_injection_time := now\<rparr>
      else if cmd = ''GET_CURSOR'' then
        s\<lparr>trace := trace s @ [Cursor_Report (last_pen_x s) (last_pen_y s)]\<rparr>
      else s)"

text \<open>
  The body of the read loop of \<^verbatim>\<open>fifo_reader_thread\<close> for one chunk: the whole chunk is
  scanned as one command. \<^verbatim>\<open>x\<close> and \<^verbatim>\<open>y\<close> are not initialised; \<open>x0\<close> and \<open>y0\<close> are
  whatever they hold.
\<close>

definition fifo_reader_thread_chunk ::
  "timespec \<Rightarrow> int \<Rightarrow> int \<Rightarrow> string \<Rightarrow> 'a hook_v4_scheme \<Rightarrow> fault + 'a hook_v4_scheme" where
  "fifo_reader_thread_chunk now x0 y0 buf s =
     (case sscanf_s_d_d (c_str buf) x0 y0 of
        Inl f \<Rightarrow> Inl f
      | Inr (n, cmd, x, y) \<Rightarrow> if n \<ge> 1 then Inr (command_v4 now cmd x y s) else Inr s)"

fun drain_v4 :: "nat \<Rightarrow> 'a hook_v4_scheme \<Rightarrow> input_event list \<times> 'a hook_v4_scheme" where
  "drain_v4 0 s = ([], s)"
| "drain_v4 (Suc k) s =
     (case dequeue_event s of
        (None, s') \<Rightarrow> ([], s')
      | (Some ev, s') \<Rightarrow> (case drain_v4 k s' of (evs, s'') \<Rightarrow> (ev # evs, s'')))"

definition detect_v4 :: "os_view \<Rightarrow> int \<Rightarrow> 'a hook_v4_scheme \<Rightarrow> 'a hook_v4_scheme" where
  "detect_v4 os fd s =
     (if wacom_fd s = - 1 \<and> is_wacom_device os fd
      then s\<lparr>wacom_fd := fd, trace := trace s @ [Wacom_Detected fd, Thread_Create]\<rparr>
      else s)"

text \<open>
  What \<^verbatim>\<open>read\<close> does with the result of the real \<^verbatim>\<open>read\<close>; \<open>now\<close> is what
  \<^verbatim>\<open>clock_gettime\<close> reads at that moment. A discarded result leaves its bytes in the
  buffer and returns 0.
\<close>

definition after_original ::
  "timespec \<Rightarrow> int \<Rightarrow> int \<times> input_event list \<Rightarrow> 'a hook_v4_scheme \<Rightarrow>
     (int \<times> input_event list) \<times> 'a hook_v4_scheme" where
  "after_original now fd r s =
     (case r of (result, buf) \<Rightarrow>
        if fd = wacom_fd s \<and> result > 0 then
          (if suppress_input s \<noteq> 0 then
             (if timediff_ms (last_injection_time s) now > SUPPRESSION_MS
              then ((result, buf),
                    track_stylus_position (take (nat result div sizeof_input_event) buf)
                      (s\<lparr>suppress_input := 0\<rparr>))
              else ((0, buf), s))
           else ((result, buf),
                 track_stylus_position (take (nat result div sizeof_input_event) buf) s))
        else ((result, buf), s))"

definition read_v4 ::
  "os_view \<Rightarrow> real_read \<Rightarrow> timespec \<Rightarrow> int \<Rightarrow> 32 word \<Rightarrow> 'a hook_v4_scheme \<Rightarrow>
     (int \<times> input_event list) \<times> 'a hook_v4_scheme" where
  "read_v4 os original_read now fd count s =
     (let s1 = detect_v4 os fd s in
      if fd = wacom_fd s1 \<and> queue_has_events s1 then
        (let max_events = unat count div sizeof_input_event in
         case drain_v4 max_events s1 of (events, s2) \<Rightarrow>
           (let injected = length events in
            if injected > 0 then ((int (injected * sizeof_input_event), events), s2)
            else (case call_original original_read fd count s2 of
                    (r, s3) \<Rightarrow> after_original now fd r s3)))
      else (case call_original original_read fd count s1 of
              (r, s3) \<Rightarrow> after_original now fd r s3))"

section \<open>Concrete scenarios\<close>

text \<open>
  Systems and states at which the theorems below are instantiated: a system with no
  open descriptor, a real \<^verbatim>\<open>read\<close> that fails (returns -1, as on \<^verbatim>\<open>EAGAIN\<close>), the digitizer
  and the touchscreen as descriptor 5, and the hook with descriptor 3 adopted and one event queued.
\<close>

definition no_devices :: os_view where
  "no_devices = \<lparr>readlink_fd = (\<lambda>_. None), evioc_name = (\<lambda>_. None)\<rparr>"

definition read_eagain :: real_read where
  "read_eagain fd count = (- 1, [])"

definition digitizer_os :: os_view where
  "digitizer_os =
     \<lparr>readlink_fd = (\<lambda>fd. if fd = 5 then Some ''/dev/input/event1'' else None),
      evioc_name = (\<lambda>fd. if fd = 5 then Some ''Wacom I2C Digitizer'' else None)\<rparr>"

definition touchscreen_os :: os_view where
  "touchscreen_os =
     \<lparr>readlink_fd = (\<lambda>fd. if fd = 5 then Some ''/dev/input/event2'' else None),
      evioc_name = (\<lambda>fd. if fd = 5 then Some ''pt_mt'' else None)\<rparr>"

definition one_queued :: hook where
  "one_queued = enqueue (make_event EV_KEY BTN_TOOL_PEN 1) (hook_init\<lparr>wacom_fd := 3\<rparr>)"



section \<open>Properties of the 32-bit arithmetic\<close>

lemma wrap32_id: "- 2147483648 \<le> k \<Longrightarrow> k \<le> 2147483647 \<Longrightarrow> wrap32 k = k"
  by (simp add: wrap32_def)

lemma wrap32_range: "- 2147483648 \<le> wrap32 k \<and> wrap32 k \<le> 2147483647"
proof -
  have "0 \<le> (k + 2147483648) mod 4294967296" and "(k + 2147483648) mod 4294967296 < 4294967296"
    by simp_all
  then show ?thesis unfolding wrap32_def by linarith
qed

section \<open>Properties of the coordinate mapper\<close>

lemmas coord_consts =
  DISPLAY_WIDTH_def DISPLAY_HEIGHT_def WACOM_X_MIN_def WACOM_X_MAX_def
  WACOM_Y_MIN_def WACOM_Y_MAX_def WACOM_X_RANGE_def WACOM_Y_RANGE_def

text \<open>
  Claim C4. With display 1404 x 1872, raw X range [211, 20820] inverted and raw Y range
  [90, 15712] swapped, the four display corners are mapped exactly onto the four corners
  of the usable raw rectangle.
\<close>

theorem C4_corners_exact:
  "map_display 0 0 = (20820, 90) \<and>
   map_display 1404 0 = (20820, 15712) \<and>
   map_display 0 1872 = (211, 90) \<and>
   map_display 1404 1872 = (211, 15712)"
  by (simp add: map_display_def display_to_wacom_x_def display_to_wacom_y_def
      c_div_def wrap32_def coord_consts)

text \<open>
  Rm2/src/inject.c maps with the full hardware range instead, so its corners are those of
  the sensor, not of the usable rectangle.
\<close>

lemma to_wacom_corners:
  "(to_wacom_x 0 0, to_wacom_y 0 0) = (20966, 0) \<and>
   (to_wacom_x 1404 0, to_wacom_y 1404 0) = (20966, 15725) \<and>
   (to_wacom_x 0 1872, to_wacom_y 0 1872) = (0, 0) \<and>
   (to_wacom_x 1404 1872, to_wacom_y 1404 1872) = (0, 15725)"
  by (simp add: to_wacom_x_def to_wacom_y_def c_div_def wrap32_def WACOM_MAX_X_def
      WACOM_MAX_Y_def DISPLAY_WIDTH_def DISPLAY_HEIGHT_def)

section \<open>Properties of the event queue\<close>

text \<open>Index arithmetic of a ring of \<open>N\<close> slots.\<close>

lemma ring_len:
  fixes h t N :: nat
  assumes "h < N" "t < N"
  shows "(t + N - h) mod N = (if h \<le> t then t - h else t + N - h)"
proof (cases "h \<le> t")
  case True
  then have "t + N - h = (t - h) + N" by simp
  then have "(t + N - h) mod N = (t - h) mod N" by simp
  with True assms show ?thesis by simp
next
  case False
  with assms show ?thesis by simp
qed

lemma ring_succ:
  fixes t N :: nat
  assumes "t < N"
  shows "Suc t mod N = (if Suc t = N then 0 else Suc t)"
  using assms by (cases "Suc t = N") auto

lemma ring_index:
  fixes h i N :: nat
  assumes "h < N" "i < N"
  shows "(h + i) mod N = (if h + i < N then h + i else h + i - N)"
proof (cases "h + i < N")
  case True
  then show ?thesis by simp
next
  case False
  then have "(h + i) mod N = (h + i - N) mod N"
    by (simp add: le_mod_geq)
  moreover have "h + i - N < N" using assms by simp
  ultimately show ?thesis using False by simp
qed

lemma q_len_less: "q_len s < MAX_QUEUE"
  by (simp add: q_len_def MAX_QUEUE_def)

lemma length_q_contents: "length (q_contents s) = q_len s"
  by (simp add: q_contents_def)

lemma q_len_cases:
  "q_wf s \<Longrightarrow> q_len s = (if q_head s \<le> q_tail s then q_tail s - q_head s
     else q_tail s + MAX_QUEUE - q_head s)"
  by (simp add: q_wf_def q_len_def ring_len)

lemma q_len_zero_iff: "q_wf s \<Longrightarrow> q_len s = 0 \<longleftrightarrow> q_head s = q_tail s"
  by (auto simp: q_len_cases) (auto simp: q_wf_def)

lemma q_full_iff:
  "q_wf s \<Longrightarrow> (q_tail s + 1) mod MAX_QUEUE = q_head s \<longleftrightarrow> q_len s = MAX_QUEUE - 1"
  by (auto simp: q_len_cases) (auto simp: q_wf_def ring_succ split: if_splits)

lemma q_wf_enqueue: "q_wf s \<Longrightarrow> q_wf (enqueue ev s)"
  by (simp add: q_wf_def enqueue_def MAX_QUEUE_def)

lemma q_wf_dequeue: "q_wf s \<Longrightarrow> q_wf (snd (dequeue s))"
  by (simp add: q_wf_def dequeue_def MAX_QUEUE_def)

lemma q_slot_distinct:
  "q_wf s \<Longrightarrow> i < q_len s \<Longrightarrow> (q_head s + i) mod MAX_QUEUE \<noteq> q_tail s"
  using q_len_less [of s]
  by (auto simp: q_len_cases split: if_splits) (auto simp: q_wf_def ring_index split: if_splits)

lemma q_slot_tail:
  "q_wf s \<Longrightarrow> (q_head s + q_len s) mod MAX_QUEUE = q_tail s"
  using q_len_less [of s]
  by (auto simp: q_len_cases split: if_splits) (auto simp: q_wf_def ring_index split: if_splits)

lemma q_len_enqueue:
  assumes "q_wf s" "q_len s \<noteq> MAX_QUEUE - 1"
  shows "q_len (enqueue ev s) = q_len s + 1"
proof -
  have nf: "(q_tail s + 1) mod MAX_QUEUE \<noteq> q_head s"
    using assms q_full_iff [of s] by blast
  let ?s' = "enqueue ev s"
  have wf': "q_wf ?s'" using assms(1) by (rule q_wf_enqueue)
  have h: "q_head ?s' = q_head s" and t: "q_tail ?s' = (q_tail s + 1) mod MAX_QUEUE"
    using nf by (simp_all add: enqueue_def)
  show ?thesis
    using assms nf unfolding q_len_cases [OF wf'] q_len_cases [OF assms(1)] h t
    by (auto simp: q_wf_def ring_succ split: if_splits)
qed

lemma q_len_dequeue:
  assumes "q_wf s" "q_len s = Suc n"
  shows "q_len (s\<lparr>q_head := (q_head s + 1) mod MAX_QUEUE\<rparr>) = n"
proof -
  let ?s' = "s\<lparr>q_head := (q_head s + 1) mod MAX_QUEUE\<rparr>"
  have wf': "q_wf ?s'" using assms(1) by (simp add: q_wf_def MAX_QUEUE_def)
  show ?thesis
    using assms unfolding q_len_cases [OF wf'] 
    by (auto simp: q_len_cases q_wf_def ring_succ split: if_splits)
qed

lemma q_contents_enqueue:
  assumes "q_wf s" "q_len s \<noteq> MAX_QUEUE - 1"
  shows "q_contents (enqueue ev s) = q_contents s @ [ev]"
proof -
  have len: "q_len (enqueue ev s) = q_len s + 1"
    using assms by (rule q_len_enqueue)
  have nf: "(q_tail s + 1) mod MAX_QUEUE \<noteq> q_head s"
    using assms q_full_iff [of s] by blast
  have hd: "q_head (enqueue ev s) = q_head s" and
    qu: "queue (enqueue ev s) = (queue s)(q_tail s := ev)"
    using nf by (simp_all add: enqueue_def)
  have "q_contents (enqueue ev s) =
      map (\<lambda>i. ((queue s)(q_tail s := ev)) ((q_head s + i) mod MAX_QUEUE)) [0..<q_len s + 1]"
    by (simp add: q_contents_def len hd qu del: upt_Suc)
  also have "\<dots> = map (\<lambda>i. ((queue s)(q_tail s := ev)) ((q_head s + i) mod MAX_QUEUE)) [0..<q_len s] @ [ev]"
    using q_slot_tail [OF assms(1)] by simp
  also have "map (\<lambda>i. ((queue s)(q_tail s := ev)) ((q_head s + i) mod MAX_QUEUE)) [0..<q_len s]
      = q_contents s"
    unfolding q_contents_def using q_slot_distinct [OF assms(1)] by (intro map_cong) auto
  finally show ?thesis .
qed

lemma enqueue_full:
  "q_wf s \<Longrightarrow> q_len s = MAX_QUEUE - 1 \<Longrightarrow> enqueue ev s = s\<lparr>trace := trace s @ [Queue_Full_Warning]\<rparr>"
  using q_full_iff [of s] unfolding enqueue_def by auto

lemma dequeue_empty: "q_wf s \<Longrightarrow> q_contents s = [] \<Longrightarrow> dequeue s = (None, s)"
  using q_len_zero_iff [of s] length_q_contents [of s] by (simp add: dequeue_def)

lemma dequeue_nonempty:
  assumes "q_wf s" "q_contents s = e # es"
  shows "dequeue s = (Some e, s\<lparr>q_head := (q_head s + 1) mod MAX_QUEUE\<rparr>) \<and>
     q_contents (s\<lparr>q_head := (q_head s + 1) mod MAX_QUEUE\<rparr>) = es"
proof -
  have len: "q_len s = Suc (length es)"
    using assms(2) length_q_contents [of s] by simp
  then have ne: "q_head s \<noteq> q_tail s"
    using q_len_zero_iff [OF assms(1)] by simp
  have "q_contents s = map (\<lambda>i. queue s ((q_head s + i) mod MAX_QUEUE)) (0 # map Suc [0..<length es])"
    unfolding q_contents_def len by (simp only: upt_conv_Cons [of 0] map_Suc_upt zero_less_Suc)
  then have e: "queue s (q_head s) = e" and
    es: "es = map (\<lambda>i. queue s ((q_head s + Suc i) mod MAX_QUEUE)) [0..<length es]"
    using assms unfolding q_wf_def by (simp_all add: comp_def)
  let ?s' = "s\<lparr>q_head := (q_head s + 1) mod MAX_QUEUE\<rparr>"
  have len': "q_len ?s' = length es"
    using assms(1) len by (rule q_len_dequeue)
  have "q_contents ?s' = map (\<lambda>i. queue s ((q_head s + Suc i) mod MAX_QUEUE)) [0..<length es]"
    unfolding q_contents_def len' by (simp add: mod_simps)
  with es have "q_contents ?s' = es" by simp
  with ne e show ?thesis unfolding dequeue_def by simp
qed


lemma q_len_le: "q_len s \<le> MAX_QUEUE - 1"
  using q_len_less [of s] by simp

lemma q_contents_enqueue_take:
  assumes "q_wf s"
  shows "q_contents (enqueue ev s) = take (MAX_QUEUE - 1) (q_contents s @ [ev])"
proof (cases "q_len s = MAX_QUEUE - 1")
  case True
  then have "q_contents (enqueue ev s) = q_contents s"
    using assms by (simp add: enqueue_full q_contents_def q_len_def)
  then show ?thesis using True by (simp add: length_q_contents)
next
  case False
  then have "q_len s < MAX_QUEUE - 1" using q_len_le [of s] by simp
  then show ?thesis
    using assms False by (simp add: q_contents_enqueue length_q_contents)
qed

lemma take_take_snoc:
  assumes "length xs \<le> n"
  shows "take n (take n (xs @ [e]) @ es) = take n (xs @ e # es)"
proof (cases "length xs = n")
  case True
  then show ?thesis by simp
next
  case False
  with assms have "length xs < n" by simp
  then show ?thesis by simp
qed

lemma run_ops_append:
  "run_ops (a @ b) s =
     (case run_ops a s of (r1, s1) \<Rightarrow> (case run_ops b s1 of (r2, s2) \<Rightarrow> (r1 @ r2, s2)))"
  by (induction a s rule: run_ops.induct) (auto split: prod.splits)

lemma q_wf_run_ops: "q_wf s \<Longrightarrow> q_wf (snd (run_ops ops s))"
proof (induction ops s rule: run_ops.induct)
  case (1 s)
  then show ?case by simp
next
  case (2 ev ops s)
  then show ?case by (simp add: q_wf_enqueue)
next
  case (3 ops s)
  from 3(2) have "q_wf (snd (dequeue s))" by (rule q_wf_dequeue)
  with 3(1) show ?case by (auto split: prod.splits)
qed

lemma q_contents_enqueue_all:
  "q_wf s \<Longrightarrow> q_contents (snd (run_ops (map Enq es) s)) = take (MAX_QUEUE - 1) (q_contents s @ es)"
proof (induction es arbitrary: s)
  case Nil
  then show ?case using q_len_le [of s] by (simp add: length_q_contents)
next
  case (Cons e es)
  have le: "length (q_contents s) \<le> MAX_QUEUE - 1"
    using q_len_le [of s] by (simp add: length_q_contents)
  have "q_contents (snd (run_ops (map Enq (e # es)) s)) =
      q_contents (snd (run_ops (map Enq es) (enqueue e s)))"
    by simp
  also have "\<dots> = take (MAX_QUEUE - 1) (q_contents (enqueue e s) @ es)"
    using Cons.prems by (intro Cons.IH q_wf_enqueue)
  also have "\<dots> = take (MAX_QUEUE - 1) (take (MAX_QUEUE - 1) (q_contents s @ [e]) @ es)"
    using Cons.prems by (simp only: q_contents_enqueue_take)
  also have "\<dots> = take (MAX_QUEUE - 1) (q_contents s @ e # es)"
    using le by (rule take_take_snoc)
  finally show ?case .
qed

lemma dequeue_cases:
  assumes "q_wf s"
  shows "dequeue s = (None, s) \<and> q_contents s = [] \<or>
     (\<exists>e s'. dequeue s = (Some e, s') \<and> q_wf s' \<and> q_contents s = e # q_contents s' \<and>
        trace s' = trace s \<and> wacom_fd s' = wacom_fd s)"
proof (cases "q_contents s")
  case Nil
  then show ?thesis using assms by (simp add: dequeue_empty)
next
  case (Cons e es)
  from dequeue_nonempty [OF assms Cons] q_wf_dequeue [OF assms]
  show ?thesis using Cons by auto
qed

lemma drain_take:
  "q_wf s \<Longrightarrow> fst (drain k s) = take k (q_contents s) \<and>
     q_contents (snd (drain k s)) = drop k (q_contents s) \<and> q_wf (snd (drain k s)) \<and>
     trace (snd (drain k s)) = trace s \<and> wacom_fd (snd (drain k s)) = wacom_fd s"
proof (induction k arbitrary: s)
  case 0
  then show ?case by simp
next
  case (Suc k)
  from dequeue_cases [OF Suc.prems] show ?case
  proof (elim disjE exE conjE)
    assume "dequeue s = (None, s)" "q_contents s = []"
    then show ?thesis using Suc.prems by simp
  next
    fix e s'
    assume d: "dequeue s = (Some e, s')" and wf: "q_wf s'"
      and c: "q_contents s = e # q_contents s'"
      and t: "trace s' = trace s" "wacom_fd s' = wacom_fd s"
    from Suc.IH [OF wf] show ?thesis
      using d c t by (auto split: prod.splits)
  qed
qed

lemma run_ops_fifo:
  assumes "q_wf s" "length (q_contents s) + length (enqueued ops) \<le> MAX_QUEUE - 1"
  shows "dequeued (fst (run_ops ops s)) @ q_contents (snd (run_ops ops s)) =
      q_contents s @ enqueued ops \<and> trace (snd (run_ops ops s)) = trace s"
  using assms
proof (induction ops s rule: run_ops.induct)
  case (1 s)
  then show ?case by simp
next
  case (2 ev ops s)
  have nf: "q_len s \<noteq> MAX_QUEUE - 1" using 2(3) by (simp add: length_q_contents)
  have c: "q_contents (enqueue ev s) = q_contents s @ [ev]"
    using 2(2) nf by (rule q_contents_enqueue)
  have t: "trace (enqueue ev s) = trace s"
    using 2(2) nf q_full_iff [of s] by (auto simp: enqueue_def)
  have "dequeued (fst (run_ops ops (enqueue ev s))) @ q_contents (snd (run_ops ops (enqueue ev s)))
      = q_contents (enqueue ev s) @ enqueued ops \<and>
      trace (snd (run_ops ops (enqueue ev s))) = trace (enqueue ev s)"
    using 2(2,3) c by (intro 2(1)) (simp_all add: q_wf_enqueue)
  then show ?case using c t by simp
next
  case (3 ops s)
  from dequeue_cases [OF 3(2)] show ?case
  proof (elim disjE exE conjE)
    assume d: "dequeue s = (None, s)" and "q_contents s = []"
    with 3(1) [of None s] 3(2,3) show ?thesis by (auto split: prod.splits)
  next
    fix e s'
    assume d: "dequeue s = (Some e, s')" and wf: "q_wf s'"
      and c: "q_contents s = e # q_contents s'" and t: "trace s' = trace s"
    with 3(1) [of "Some e" s'] 3(3) show ?thesis by (auto split: prod.splits)
  qed
qed

lemma q_wf_init: "q_wf hook_init"
  by (simp add: q_wf_def hook_init_def MAX_QUEUE_def)

lemma q_contents_init: "q_contents hook_init = []"
  by (simp add: q_contents_def q_len_def hook_init_def)

lemma fst_run_ops_append:
  "fst (run_ops (a @ b) s) = fst (run_ops a s) @ fst (run_ops b (snd (run_ops a s)))"
  by (simp add: run_ops_append split: prod.splits)

lemma fst_run_ops_enqs: "fst (run_ops (map Enq es) s) = []"
  by (induction es arbitrary: s) simp_all

lemma run_ops_deqs:
  "q_wf s \<Longrightarrow> fst (run_ops (replicate n Deq) s) =
     map Some (take n (q_contents s)) @ replicate (n - length (q_contents s)) None"
proof (induction n arbitrary: s)
  case 0
  then show ?case by simp
next
  case (Suc n)
  from dequeue_cases [OF Suc.prems] show ?case
  proof (elim disjE exE conjE)
    assume d: "dequeue s = (None, s)" and c: "q_contents s = []"
    from Suc.IH [OF Suc.prems] d c show ?thesis
      by (auto split: prod.splits)
  next
    fix e s'
    assume d: "dequeue s = (Some e, s')" and wf: "q_wf s'"
      and c: "q_contents s = e # q_contents s'"
    from Suc.IH [OF wf] d c show ?thesis
      by (auto split: prod.splits)
  qed
qed

text \<open>
  Claim C5, as the code has it. From any state of the queue, run any interleaving of
  \<^verbatim>\<open>enqueue\<close> and \<^verbatim>\<open>dequeue\<close> calls in which the events stored at the start plus all events
  enqueued number at most \<open>MAX_QUEUE - 1\<close>. Then the events handed out by the dequeues,
  followed by what a final drain hands out, are exactly the stored events followed by the
  enqueued ones, in order; nothing is dropped (no warning is printed), duplicated or
  reordered.
\<close>

theorem C5_fifo_law:
  assumes "q_wf s"
    and "length (q_contents s) + length (enqueued ops) \<le> MAX_QUEUE - 1"
  shows "dequeued (fst (run_ops ops s)) @ fst (drain MAX_QUEUE (snd (run_ops ops s))) =
      q_contents s @ enqueued ops \<and>
    trace (snd (run_ops ops s)) = trace s"
proof -
  let ?s' = "snd (run_ops ops s)"
  have wf: "q_wf ?s'" using assms(1) by (rule q_wf_run_ops)
  have "length (q_contents ?s') \<le> MAX_QUEUE"
    using q_len_less [of ?s'] by (simp add: length_q_contents)
  then have "fst (drain MAX_QUEUE ?s') = q_contents ?s'"
    using drain_take [OF wf, of MAX_QUEUE] by simp
  then show ?thesis using run_ops_fifo [OF assms] by simp
qed

theorem C5_fifo_law_witness:
  "q_wf hook_init \<and>
   length (q_contents hook_init) +
     length (enqueued [Enq (make_event 3 0 5), Deq, Enq (make_event 3 1 6), Deq, Deq]) \<le> MAX_QUEUE - 1 \<and>
   dequeued (fst (run_ops [Enq (make_event 3 0 5), Deq, Enq (make_event 3 1 6), Deq, Deq] hook_init)) @
     fst (drain MAX_QUEUE (snd (run_ops [Enq (make_event 3 0 5), Deq, Enq (make_event 3 1 6), Deq, Deq] hook_init))) =
     [make_event 3 0 5, make_event 3 1 6]"
proof -
  have h1: "q_wf hook_init" by (rule q_wf_init)
  have h2: "length (q_contents hook_init) +
     length (enqueued [Enq (make_event 3 0 5), Deq, Enq (make_event 3 1 6), Deq, Deq]) \<le> MAX_QUEUE - 1"
    by (simp add: q_contents_init MAX_QUEUE_def)
  from C5_fifo_law [OF h1 h2] h1 h2 show ?thesis
    by (simp only: q_contents_init enqueued.simps append_Nil simp_thms)
qed

text \<open>
  The claim as stated allows as many enqueues as the declared capacity. At exactly
  10000 enqueues onto the empty queue, followed by 10000 dequeues, only 9999 events come
  out and the last dequeue finds the queue empty.
\<close>

theorem C5_counterexample:
  "enqueued (replicate 10000 (Enq (make_event 3 0 7)) @ replicate 10000 Deq) =
     replicate 10000 (make_event 3 0 7) \<and>
   fst (run_ops (replicate 10000 (Enq (make_event 3 0 7)) @ replicate 10000 Deq) hook_init) =
     replicate 9999 (Some (make_event 3 0 7)) @ [None]"
proof -
  let ?e = "make_event 3 0 7"
  let ?s = "snd (run_ops (map Enq (replicate 10000 ?e)) hook_init)"
  have enq: "enqueued (map Enq es @ replicate n Deq) = es" for es n
    by (induction es) (simp_all, induction n, simp_all)
  have wf: "q_wf ?s" using q_wf_init by (rule q_wf_run_ops)
  have "q_contents ?s = take (MAX_QUEUE - 1) (q_contents hook_init @ replicate 10000 ?e)"
    using q_wf_init by (rule q_contents_enqueue_all)
  then have c: "q_contents ?s = replicate 9999 ?e"
    by (simp add: q_contents_init MAX_QUEUE_def)
  have "fst (run_ops (replicate 10000 Deq) ?s) = replicate 9999 (Some ?e) @ [None]"
    unfolding run_ops_deqs [OF wf] c by simp
  then have "fst (run_ops (map Enq (replicate 10000 ?e) @ replicate 10000 Deq) hook_init) =
      replicate 9999 (Some ?e) @ [None]"
    by (simp only: fst_run_ops_append fst_run_ops_enqs append_Nil)
  then show ?thesis using enq [of "replicate 10000 ?e" 10000] by simp
qed

text \<open>
  Claim C6. After any sequence of queue operations the indices are in range and at most
  \<open>MAX_QUEUE\<close> events are stored. \<^verbatim>\<open>enqueue\<close> on a full queue only prints the warning:
  the slots and both indices are as before. A burst of any length keeps the stored events
  and the first new ones that fit, and drops the rest.
\<close>

theorem C6_bounded_drop_newest:
  assumes "q_wf s"
  shows "q_wf (snd (run_ops ops s)) \<and>
    length (q_contents (snd (run_ops ops s))) \<le> MAX_QUEUE \<and>
    (length (q_contents s) = MAX_QUEUE - 1 \<longrightarrow>
       enqueue ev s = s\<lparr>trace := trace s @ [Queue_Full_Warning]\<rparr>) \<and>
    q_contents (snd (run_ops (map Enq es) s)) = take (MAX_QUEUE - 1) (q_contents s @ es)"
proof -
  let ?s' = "snd (run_ops ops s)"
  have "length (q_contents ?s') \<le> MAX_QUEUE"
    using q_len_less [of ?s'] by (simp add: length_q_contents)
  moreover have "length (q_contents s) = MAX_QUEUE - 1 \<longrightarrow>
       enqueue ev s = s\<lparr>trace := trace s @ [Queue_Full_Warning]\<rparr>"
    using assms by (simp add: length_q_contents enqueue_full)
  ultimately show ?thesis
    using assms by (simp add: q_wf_run_ops q_contents_enqueue_all)
qed

theorem C6_bounded_drop_newest_witness:
  "q_wf (hook_init\<lparr>q_head := 1\<rparr>) \<and>
   length (q_contents (hook_init\<lparr>q_head := 1\<rparr>)) = MAX_QUEUE - 1 \<and>
   enqueue (make_event 3 0 5) (hook_init\<lparr>q_head := 1\<rparr>) =
     hook_init\<lparr>q_head := 1, trace := [Queue_Full_Warning]\<rparr>"
proof -
  have h1: "q_wf (hook_init\<lparr>q_head := 1\<rparr>)"
    by (simp add: q_wf_def hook_init_def MAX_QUEUE_def)
  have h2: "length (q_contents (hook_init\<lparr>q_head := 1\<rparr>)) = MAX_QUEUE - 1"
    by (simp add: length_q_contents q_len_def hook_init_def MAX_QUEUE_def)
  from C6_bounded_drop_newest [OF h1, of "[]" "make_event 3 0 5" "[]"] h1 h2 show ?thesis
    by (simp add: hook_init_def)
qed

text \<open>
  Claim C10. The ring never stores more than 9999 events: \<^verbatim>\<open>enqueue\<close> leaves the stored
  events as they are exactly when \<open>(q_tail + 1) mod MAX_QUEUE = q_head\<close>, which is the case
  exactly when 9999 events are stored. Of 10000 events enqueued onto the empty queue
  the last one is dropped. \<^verbatim>\<open>queue_event\<close> of inject\_hook.c is the same function.
\<close>

theorem C10_one_slot_unused:
  assumes "q_wf s"
  shows "length (q_contents s) \<le> 9999 \<and>
    (q_contents (enqueue ev s) = q_contents s \<longleftrightarrow> (q_tail s + 1) mod MAX_QUEUE = q_head s) \<and>
    ((q_tail s + 1) mod MAX_QUEUE = q_head s \<longleftrightarrow> length (q_contents s) = 9999) \<and>
    (length es = 10000 \<longrightarrow>
       q_contents (snd (run_ops (map Enq es) hook_init)) = butlast es) \<and>
    queue_event ev v = enqueue ev v"
proof -
  have n: "MAX_QUEUE - 1 = 9999" by (simp add: MAX_QUEUE_def)
  have v4: "queue_event ev v = enqueue ev v"
    by (simp add: queue_event_def enqueue_def MAX_QUEUE_SIZE_def MAX_QUEUE_def)
  have a: "length (q_contents s) \<le> 9999"
    using q_len_le [of s] by (simp add: length_q_contents MAX_QUEUE_def)
  have c: "(q_tail s + 1) mod MAX_QUEUE = q_head s \<longleftrightarrow> length (q_contents s) = 9999"
    using q_full_iff [OF assms] by (simp only: length_q_contents n)
  have b: "q_contents (enqueue ev s) = q_contents s \<longleftrightarrow> length (q_contents s) = 9999"
    unfolding q_contents_enqueue_take [OF assms] n using a by (cases "length (q_contents s) = 9999") auto
  have "q_contents (snd (run_ops (map Enq es) hook_init)) =
      take (MAX_QUEUE - 1) (q_contents hook_init @ es)"
    using q_wf_init by (rule q_contents_enqueue_all)
  then have d: "length es = 10000 \<longrightarrow>
      q_contents (snd (run_ops (map Enq es) hook_init)) = butlast es"
    by (simp add: q_contents_init MAX_QUEUE_def butlast_conv_take)
  from a b c d v4 show ?thesis by blast
qed

theorem C10_one_slot_unused_witness:
  "q_wf (hook_init\<lparr>q_head := 1\<rparr>) \<and>
   (q_tail (hook_init\<lparr>q_head := 1\<rparr>) + 1) mod MAX_QUEUE = q_head (hook_init\<lparr>q_head := 1\<rparr>) \<and>
   length (q_contents (hook_init\<lparr>q_head := 1\<rparr>)) = 9999 \<and>
   q_contents (enqueue (make_event 3 0 5) (hook_init\<lparr>q_head := 1\<rparr>)) =
     q_contents (hook_init\<lparr>q_head := 1\<rparr>) \<and>
   length (replicate 10000 (make_event 3 0 5)) = 10000 \<and>
   q_contents (snd (run_ops (map Enq (replicate 10000 (make_event 3 0 5))) hook_init)) =
     replicate 9999 (make_event 3 0 5)"
proof -
  have h1: "q_wf (hook_init\<lparr>q_head := 1\<rparr>)"
    by (simp add: q_wf_def hook_init_def MAX_QUEUE_def)
  have h2: "(q_tail (hook_init\<lparr>q_head := 1\<rparr>) + 1) mod MAX_QUEUE = q_head (hook_init\<lparr>q_head := 1\<rparr>)"
    by (simp add: hook_init_def MAX_QUEUE_def)
  have h3: "butlast (replicate 10000 (make_event 3 0 5)) = replicate 9999 (make_event 3 0 5)"
    by (simp add: butlast_conv_take)
  from C10_one_slot_unused [OF h1, where ev = "make_event 3 0 5"
      and es = "replicate 10000 (make_event 3 0 5)" and v = v4_init] h1 h2 h3
  show ?thesis by (simp del: map_replicate)
qed

section \<open>Properties of device detection and of the read hook\<close>

lemma strstr_iff: "strstr hay needle \<longleftrightarrow> (\<exists>pre post. hay = pre @ needle @ post)"
proof (induction hay)
  case Nil
  then show ?case by auto
next
  case (Cons c cs)
  have a: "take (length needle) (c # cs) = needle \<longleftrightarrow> (\<exists>post. c # cs = needle @ post)"
    by (metis append_eq_conv_conj)
  have "(\<exists>pre post. c # cs = pre @ needle @ post) \<longleftrightarrow>
      (\<exists>post. c # cs = needle @ post) \<or> (\<exists>pre post. cs = pre @ needle @ post)"
  proof
    assume "\<exists>pre post. c # cs = pre @ needle @ post"
    then obtain pre post where e: "c # cs = pre @ needle @ post" by blast
    show "(\<exists>post. c # cs = needle @ post) \<or> (\<exists>pre post. cs = pre @ needle @ post)"
    proof (cases pre)
      case Nil
      with e show ?thesis by auto
    next
      case (Cons p ps)
      with e have "cs = ps @ needle @ post" by simp
      then show ?thesis by blast
    qed
  next
    assume "(\<exists>post. c # cs = needle @ post) \<or> (\<exists>pre post. cs = pre @ needle @ post)"
    then show "\<exists>pre post. c # cs = pre @ needle @ post"
    proof
      assume "\<exists>post. c # cs = needle @ post"
      then obtain post where "c # cs = [] @ needle @ post" by auto
      then show ?thesis by blast
    next
      assume "\<exists>pre post. cs = pre @ needle @ post"
      then obtain pre post where "c # cs = (c # pre) @ needle @ post" by auto
      then show ?thesis by blast
    qed
  qed
  with a Cons show ?case by simp
qed

lemma detect_wacom_fd:
  "wacom_fd (detect os fd s) = (if wacom_fd s = - 1 \<and> is_wacom os fd then fd else wacom_fd s)"
  by (simp add: detect_def)

lemma wacom_fd_call_original [simp]:
  "wacom_fd (snd (call_original original_read fd count s)) = wacom_fd s"
  by (simp add: call_original_def)

lemma wacom_fd_dequeue: "wacom_fd (snd (dequeue s)) = wacom_fd s"
  by (simp add: dequeue_def)

lemma wacom_fd_drain: "wacom_fd (snd (drain k s)) = wacom_fd s"
proof (induction k arbitrary: s)
  case 0
  then show ?case by simp
next
  case (Suc k)
  show ?case
  proof (cases "dequeue s")
    case (Pair r s')
    then have "wacom_fd s' = wacom_fd s" using wacom_fd_dequeue [of s] by simp
    with Pair Suc [of s'] show ?thesis by (cases r) (auto split: prod.splits)
  qed
qed

lemma wacom_fd_read:
  "wacom_fd (snd (read os original_read fd count s)) = wacom_fd (detect os fd s)"
proof -
  have "wacom_fd (snd (case drain k s1 of (events, s2) \<Rightarrow>
           (let injected = length events in
            if injected > 0 then ((int (injected * sizeof_input_event), events), s2)
            else call_original original_read fd count s2))) = wacom_fd s1" for k and s1 :: "'a hook_scheme"
    using wacom_fd_drain [of k s1] by (cases "drain k s1") (simp add: Let_def)
  then show ?thesis
    unfolding read_def Let_def by (simp del: One_nat_def)
qed

text \<open>
  Claim C9. \<^verbatim>\<open>is_wacom\<close> answers true exactly when the descriptor's link starts with
  \<^verbatim>\<open>/dev/input/event\<close> and the reported device name contains \<^verbatim>\<open>Wacom\<close>; when either
  query fails it answers false; and \<^verbatim>\<open>read\<close> on a descriptor whose name lacks \<^verbatim>\<open>Wacom\<close>
  leaves \<^verbatim>\<open>wacom_fd\<close> as it was, whatever its path.
\<close>

theorem C9_classification:
  "(is_wacom os fd \<longleftrightarrow>
      (\<exists>target name. readlink_fd os fd = Some target \<and> take 16 target = ''/dev/input/event'' \<and>
         evioc_name os fd = Some name \<and> (\<exists>pre post. name = pre @ ''Wacom'' @ post))) \<and>
   (readlink_fd os fd = None \<or> evioc_name os fd = None \<longrightarrow> \<not> is_wacom os fd) \<and>
   (evioc_name os fd = Some name \<and> \<not> (\<exists>pre post. name = pre @ ''Wacom'' @ post) \<longrightarrow>
      wacom_fd (snd (read os original_read fd count s)) = wacom_fd s)"
proof -
  have a: "is_wacom os fd \<longleftrightarrow>
      (\<exists>target name. readlink_fd os fd = Some target \<and> take 16 target = ''/dev/input/event'' \<and>
         evioc_name os fd = Some name \<and> (\<exists>pre post. name = pre @ ''Wacom'' @ post))"
    unfolding is_wacom_def strstr_iff [symmetric]
    by (auto split: option.splits)
  have b: "readlink_fd os fd = None \<or> evioc_name os fd = None \<longrightarrow> \<not> is_wacom os fd"
    by (auto simp: is_wacom_def split: option.splits)
  have c: "evioc_name os fd = Some name \<and> \<not> (\<exists>pre post. name = pre @ ''Wacom'' @ post) \<longrightarrow>
      wacom_fd (snd (read os original_read fd count s)) = wacom_fd s"
    using a by (auto simp: wacom_fd_read detect_wacom_fd)
  from a b c show ?thesis by blast
qed

theorem C9_classification_witness:
  "is_wacom digitizer_os 5 \<and> \<not> is_wacom no_devices 5 \<and>
   evioc_name touchscreen_os 5 = Some ''pt_mt'' \<and>
   wacom_fd (snd (read touchscreen_os read_eagain 5 16 hook_init)) = wacom_fd hook_init"
proof -
  have h1: "\<exists>target name. readlink_fd digitizer_os 5 = Some target \<and>
      take 16 target = ''/dev/input/event'' \<and> evioc_name digitizer_os 5 = Some name \<and>
      (\<exists>pre post. name = pre @ ''Wacom'' @ post)"
  proof -
    have "strstr ''Wacom I2C Digitizer'' ''Wacom''" by simp
    then have "\<exists>pre post. ''Wacom I2C Digitizer'' = pre @ ''Wacom'' @ post"
      by (rule strstr_iff [THEN iffD1])
    then show ?thesis by (simp add: digitizer_os_def)
  qed
  have h2: "readlink_fd no_devices 5 = None \<or> evioc_name no_devices 5 = None"
    by (simp add: no_devices_def)
  have h3: "evioc_name touchscreen_os 5 = Some ''pt_mt'' \<and>
      \<not> (\<exists>pre post. ''pt_mt'' = pre @ ''Wacom'' @ post)"
  proof -
    have "\<not> strstr ''pt_mt'' ''Wacom''" by simp
    then have "\<not> (\<exists>pre post. ''pt_mt'' = pre @ ''Wacom'' @ post)"
      using strstr_iff [of "''pt_mt''" "''Wacom''"] by blast
    moreover have "evioc_name touchscreen_os 5 = Some ''pt_mt''"
      by (simp add: touchscreen_os_def)
    ultimately show ?thesis by (rule conjI [rotated])
  qed
  from C9_classification [of digitizer_os 5 "''x''" read_eagain 16 hook_init] h1
  have a: "is_wacom digitizer_os 5" by blast
  from C9_classification [of no_devices 5 "''x''" read_eagain 16 hook_init] h2
  have b: "\<not> is_wacom no_devices 5" by blast
  from C9_classification [of touchscreen_os 5 "''pt_mt''" read_eagain 16 hook_init] h3
  have c: "wacom_fd (snd (read touchscreen_os read_eagain 5 16 hook_init)) = wacom_fd hook_init"
    by blast
  from a b c h3 show ?thesis by blast
qed

lemma has_events_contents: "q_wf s \<Longrightarrow> has_events s \<longleftrightarrow> q_contents s \<noteq> []"
  using q_len_zero_iff [of s] length_q_contents [of s] by (auto simp: has_events_def)

text \<open>
  Claim C1, as the code has it. Let \<^verbatim>\<open>read\<close> be called on the adopted descriptor while
  events are queued. If the byte count holds at least one record, the hook hands out the
  oldest \<open>min (count / 16) (queue length)\<close> events in queue order, returns 16 times
  their number, removes them from the queue and does not call the real \<^verbatim>\<open>read\<close> (the trace
  is unchanged). If the byte count is smaller than one record, nothing is drained and the
  call is passed to the real \<^verbatim>\<open>read\<close>.
\<close>

theorem C1_read_drains_queue:
  assumes "q_wf s" and "wacom_fd s = fd" and "fd \<noteq> - 1" and "has_events s"
  shows "if sizeof_input_event \<le> unat count
     then 0 < min (unat count div sizeof_input_event) (length (q_contents s)) \<and>
       fst (read os original_read fd count s) =
         (int (min (unat count div sizeof_input_event) (length (q_contents s)) * sizeof_input_event),
          take (min (unat count div sizeof_input_event) (length (q_contents s))) (q_contents s)) \<and>
       q_contents (snd (read os original_read fd count s)) =
         drop (min (unat count div sizeof_input_event) (length (q_contents s))) (q_contents s) \<and>
       trace (snd (read os original_read fd count s)) = trace s
     else read os original_read fd count s = call_original original_read fd count s"
proof -
  let ?k = "unat count div sizeof_input_event"
  have d: "detect os fd s = s" using assms(2,3) by (simp add: detect_def)
  have ne: "q_contents s \<noteq> []" using assms(1,4) by (simp add: has_events_contents)
  note dr = drain_take [OF assms(1), of ?k]
  show ?thesis
  proof (cases "sizeof_input_event \<le> unat count")
    case True
    then have k: "0 < ?k" by (simp add: sizeof_input_event_def div_greater_zero_iff)
    then have len: "0 < length (fst (drain ?k s))" using dr ne by simp
    have r: "read os original_read fd count s =
        ((int (length (fst (drain ?k s)) * sizeof_input_event), fst (drain ?k s)), snd (drain ?k s))"
      using assms(2,4) len unfolding read_def d Let_def
      by (cases "drain ?k s") simp
    show ?thesis using True k ne dr unfolding r by (simp add: min_def)
  next
    case False
    then have "?k = 0" by (simp add: sizeof_input_event_def)
    then show ?thesis
      using False assms(2,4) unfolding read_def d Let_def by simp
  qed
qed

theorem C1_read_drains_queue_witness:
  "q_wf one_queued \<and> wacom_fd one_queued = 3 \<and> has_events one_queued \<and>
   sizeof_input_event \<le> unat (48 :: 32 word) \<and>
   fst (read no_devices read_eagain 3 48 one_queued) = (16, [make_event EV_KEY BTN_TOOL_PEN 1]) \<and>
   trace (snd (read no_devices read_eagain 3 48 one_queued)) = []"
proof -
  have h1: "q_wf one_queued"
    by (simp add: one_queued_def enqueue_def q_wf_def hook_init_def MAX_QUEUE_def)
  have h2: "wacom_fd one_queued = 3" and h4: "has_events one_queued"
    by (simp_all add: one_queued_def enqueue_def hook_init_def has_events_def MAX_QUEUE_def)
  have h3: "(3::int) \<noteq> - 1" by simp
  have h5: "sizeof_input_event \<le> unat (48 :: 32 word)" by (simp add: sizeof_input_event_def)
  have c: "q_contents one_queued = [make_event EV_KEY BTN_TOOL_PEN 1]"
    unfolding one_queued_def
    by (subst q_contents_enqueue)
       (simp_all add: q_wf_def q_len_def q_contents_def hook_init_def MAX_QUEUE_def)
  have t: "trace one_queued = []"
    by (simp add: one_queued_def enqueue_def hook_init_def MAX_QUEUE_def)
  from C1_read_drains_queue [OF h1 h2 h3 h4, of 48 no_devices read_eagain] h1 h2 h4 h5 c t
  show ?thesis by (simp add: sizeof_input_event_def)
qed

text \<open>
  The claim as stated also covers byte counts below one record. With one event queued
  and a count of 8 bytes the hook calls the real \<^verbatim>\<open>read\<close> and returns its result.
\<close>

theorem C1_counterexample:
  "wacom_fd one_queued = 3 \<and> has_events one_queued \<and>
   read no_devices read_eagain 3 8 one_queued =
     ((- 1, []), one_queued\<lparr>trace := [Original_Read 3 8]\<rparr>)"
  by (simp add: one_queued_def enqueue_def hook_init_def has_events_def MAX_QUEUE_def
      read_def detect_def sizeof_input_event_def call_original_def read_eagain_def)

section \<open>Properties of the command reader\<close>







lemma length_last_fragment: "length (last_fragment xs) \<le> length xs"
  unfolding last_fragment_def using length_takeWhile_le [of _ "rev xs"] by simp




lemmas scan_defs = sscanf_s_d_d_def scan_int_def isspace_def isdigit_def digits_value_def Let_def



















section \<open>Properties of the hook with suppression\<close>

text \<open>The queue and the detection of this variant are those of Rm2/src/inject.c.\<close>

lemma queue_event_eq_enqueue: "queue_event ev s = enqueue ev s"
  by (simp add: queue_event_def enqueue_def MAX_QUEUE_SIZE_def MAX_QUEUE_def)

lemma dequeue_event_eq_dequeue: "dequeue_event s = dequeue s"
  by (simp add: dequeue_event_def dequeue_def MAX_QUEUE_SIZE_def MAX_QUEUE_def)

lemma queue_has_events_eq: "queue_has_events s = has_events s"
  by (simp add: queue_has_events_def has_events_def)

lemma drain_v4_eq_drain: "drain_v4 k s = drain k s"
  by (induction k arbitrary: s)
    (auto simp: dequeue_event_eq_dequeue split: prod.splits option.splits)

lemma is_wacom_device_eq: "is_wacom_device os fd = is_wacom os fd"
  by (simp add: is_wacom_device_def is_wacom_def)

lemma detect_v4_eq_detect: "detect_v4 os fd s = detect os fd s"
  by (simp add: detect_v4_def detect_def is_wacom_device_eq)

lemma queue_event_frame:
  "suppress_input (queue_event ev s) = suppress_input s"
  "last_injection_time (queue_event ev s) = last_injection_time s"
  by (simp_all add: queue_event_def)

lemma fold_queue_event_frame:
  "suppress_input (fold queue_event evs s) = suppress_input s \<and>
   last_injection_time (fold queue_event evs s) = last_injection_time s"
  by (induction evs arbitrary: s) (simp_all add: queue_event_frame)




lemma read_v4_injects_like_read:
  assumes "wacom_fd s = fd" and "fd \<noteq> - 1" and "queue_has_events s"
    and "sizeof_input_event \<le> unat count"
  shows "read_v4 os original_read now fd count s = read os original_read fd count s"
proof -
  have d: "detect os fd s = s" using assms(1,2) by (simp add: detect_def)
  have k: "0 < unat count div sizeof_input_event"
    using assms(4) by (simp add: sizeof_input_event_def div_greater_zero_iff)
  have ne: "q_head s \<noteq> q_tail s" using assms(3) by (simp add: queue_has_events_def)
  obtain k' where k': "unat count div sizeof_input_event = Suc k'"
    using k by (cases "unat count div sizeof_input_event") simp_all
  have he: "has_events s" using ne by (simp add: has_events_def)
  have "fst (drain (Suc k') s) \<noteq> []"
    using ne by (simp add: dequeue_def split: prod.splits)
  then show ?thesis
    unfolding read_v4_def read_def detect_v4_eq_detect d Let_def drain_v4_eq_drain
      queue_has_events_eq k'
    using assms(1) he by (cases "drain (Suc k') s") (simp del: drain.simps)
qed

text \<open>
  Within about 24 days between the two time stamps \<^verbatim>\<open>timediff_ms\<close> is the elapsed time in
  whole milliseconds; beyond that the product with 1000 leaves the range of \<^verbatim>\<open>long\<close>.
\<close>

lemma timediff_ms_exact:
  assumes "\<bar>tv_sec fin - tv_sec start\<bar> \<le> 2147482"
    and "0 \<le> tv_nsec start" and "tv_nsec start < 1000000000"
    and "0 \<le> tv_nsec fin" and "tv_nsec fin < 1000000000"
  shows "timediff_ms start fin =
     (tv_sec fin - tv_sec start) * 1000 + c_div (tv_nsec fin - tv_nsec start) 1000000"
proof -
  have a: "wrap32 (tv_sec fin - tv_sec start) = tv_sec fin - tv_sec start"
    using assms(1) by (intro wrap32_id) linarith+
  have b: "wrap32 ((tv_sec fin - tv_sec start) * 1000) = (tv_sec fin - tv_sec start) * 1000"
    using assms(1) by (intro wrap32_id) (simp_all add: abs_le_iff algebra_simps)
  have c: "wrap32 (tv_nsec fin - tv_nsec start) = tv_nsec fin - tv_nsec start"
    using assms(2-5) by (intro wrap32_id) linarith+
  have "\<bar>tv_nsec fin - tv_nsec start\<bar> div 1000000 \<le> 999"
    using assms(2-5) by linarith
  then have d: "\<bar>c_div (tv_nsec fin - tv_nsec start) 1000000\<bar> \<le> 999"
    by (simp add: c_div_def abs_mult abs_sgn_eq)
  have "wrap32 ((tv_sec fin - tv_sec start) * 1000 +
      c_div (tv_nsec fin - tv_nsec start) 1000000) =
      (tv_sec fin - tv_sec start) * 1000 + c_div (tv_nsec fin - tv_nsec start) 1000000"
    using assms(1) d by (intro wrap32_id) (simp_all add: abs_le_iff algebra_simps)
  then show ?thesis by (simp only: timediff_ms_def a b c)
qed

lemma timediff_ms_overflow:
  "timediff_ms \<lparr>tv_sec = 100, tv_nsec = 0\<rparr> \<lparr>tv_sec = 2147584, tv_nsec = 0\<rparr> = - 2147483296"
  by (simp add: timediff_ms_def wrap32_def c_div_def)




text \<open>
  Claim C3, at the code. \<^verbatim>\<open>PEN_DOWN\<close> sets the suppression flag and records the time;
  \<^verbatim>\<open>PEN_MOVE\<close> changes neither. \<^verbatim>\<open>PEN_UP\<close> records the time but leaves the flag as it
  finds it: read in the Quiet state (flag 0), a \<^verbatim>\<open>PEN_UP\<close> line leaves the state Quiet.
\<close>

theorem C3_pen_up_keeps_flag:
  "suppress_input (command_v4 now ''PEN_DOWN'' x y s) = 1 \<and>
   last_injection_time (command_v4 now ''PEN_DOWN'' x y s) = now \<and>
   suppress_input (command_v4 now ''PEN_MOVE'' x y s) = suppress_input s \<and>
   last_injection_time (command_v4 now ''PEN_MOVE'' x y s) = last_injection_time s \<and>
   suppress_input (command_v4 now ''PEN_UP'' x y s) = suppress_input s \<and>
   last_injection_time (command_v4 now ''PEN_UP'' x y s) = now \<and>
   suppress_input v4_init = 0 \<and>
   fifo_reader_thread_chunk \<lparr>tv_sec = 100, tv_nsec = 0\<rparr> 7 9 ''PEN_UP\<newline>'' v4_init =
     Inr (command_v4 \<lparr>tv_sec = 100, tv_nsec = 0\<rparr> ''PEN_UP'' 7 9 v4_init) \<and>
   suppress_input (command_v4 \<lparr>tv_sec = 100, tv_nsec = 0\<rparr> ''PEN_UP'' 7 9 v4_init) = 0"
proof -
  have c: "fifo_reader_thread_chunk \<lparr>tv_sec = 100, tv_nsec = 0\<rparr> 7 9 ''PEN_UP\<newline>'' v4_init =
     Inr (command_v4 \<lparr>tv_sec = 100, tv_nsec = 0\<rparr> ''PEN_UP'' 7 9 v4_init)"
    by (simp add: fifo_reader_thread_chunk_def c_str_def scan_defs)
  have z: "suppress_input v4_init = 0" by (simp add: v4_init_def)
  show ?thesis
    unfolding c using z by (simp add: command_v4_def fold_queue_event_frame)
qed

end
